theory Spec2Isabelle
  imports Main "HOL-Library.Multiset"
begin

section \<open>Pooling splice junctions: \<open>src/bin/join_junctions.py\<close>\<close>

text \<open>
  The script reads one or more junction files line by line, pools the evidence of every
  unannotated junction that is long enough in a dictionary keyed by the text
  \<open>chr:start-end:strand\<close>, and writes the pooled entries whose coverage reaches a threshold.

  Conventions of the embedding.
  \<^item> A \<open>char\<close> stands for one code point below 256 of a Python \<open>str\<close>; a file is the list
    of its lines, in the order the \<open>for line in f\<close> loop yields them.
  \<^item> Python's unbounded \<open>int\<close> is \<open>int\<close>.
  \<^item> The dictionary \<open>accumulator\<close> keeps insertion order, which the writer follows, so it
    is an association list: a new key is appended, a known key is updated in place.
  \<^item> Every exception the loop body can raise is a \<open>ValueError\<close> (tuple unpacking with the
    wrong number of values, \<open>int()\<close> of text that is no integer literal); it ends the run,
    so the functions return \<open>py_error + 'a\<close>.
  \<^item> The \<open>print\<close> of the length gate writes to standard output only and is left out, as are
    failures of opening the files and the interpreter's optional cap on the number of
    digits that \<open>int()\<close> and \<open>str()\<close> convert.
\<close>

subsection \<open>Text primitives of Python\<close>

datatype py_error = ValueError

text \<open>The code points below 256 that \<open>str.split()\<close> and \<open>str.strip()\<close> treat as white space.\<close>

definition is_space :: "char \<Rightarrow> bool" where
  "is_space c \<longleftrightarrow>
     (of_char c :: nat) \<in> {9, 10, 11, 12, 13, 28, 29, 30, 31, 32, 133, 160}"

text \<open>\<open>s.strip()\<close>: white space removed at both ends.\<close>

definition py_strip :: "string \<Rightarrow> string" where
  "py_strip s = rev (dropWhile is_space (rev (dropWhile is_space s)))"

text \<open>
  \<open>s.split()\<close>: the maximal runs of characters other than white space, in order.
  \<open>split_ws cur s\<close> scans \<open>s\<close> with the field under construction in \<open>cur\<close>.
\<close>

fun split_ws :: "string \<Rightarrow> string \<Rightarrow> string list" where
  "split_ws cur [] = (if cur = [] then [] else [cur])"
| "split_ws cur (c # cs) =
     (if is_space c then (if cur = [] then split_ws [] cs else cur # split_ws [] cs)
      else split_ws (cur @ [c]) cs)"

definition py_split :: "string \<Rightarrow> string list" where
  "py_split s = split_ws [] s"

text \<open>
  \<open>int(s)\<close> in base ten on a field (which holds no white space): an optional sign, then
  decimal digits, where a single underscore may stand between two digits. Anything else
  raises \<open>ValueError\<close>, here \<open>None\<close>.
\<close>

definition digit_val :: "char \<Rightarrow> nat option" where
  "digit_val c =
     (let n = (of_char c :: nat) in if 48 \<le> n \<and> n \<le> 57 then Some (n - 48) else None)"

fun digits_from :: "nat \<Rightarrow> string \<Rightarrow> nat option" where
  "digits_from acc [] = Some acc"
| "digits_from acc (c # cs) =
     (case digit_val c of
        Some d \<Rightarrow> digits_from (10 * acc + d) cs
      | None \<Rightarrow>
          (if c = CHR ''_'' then
             (case cs of
                [] \<Rightarrow> None
              | c' # cs' \<Rightarrow>
                  (case digit_val c' of
                     Some d \<Rightarrow> digits_from (10 * acc + d) cs'
                   | None \<Rightarrow> None))
           else None))"

definition py_nat :: "string \<Rightarrow> nat option" where
  "py_nat s =
     (case s of
        [] \<Rightarrow> None
      | c # cs \<Rightarrow> (case digit_val c of Some d \<Rightarrow> digits_from d cs | None \<Rightarrow> None))"

definition py_int :: "string \<Rightarrow> int option" where
  "py_int s =
     (case s of
        [] \<Rightarrow> None
      | c # cs \<Rightarrow>
          (if c = CHR ''-'' then map_option (\<lambda>n. - int n) (py_nat cs)
           else if c = CHR ''+'' then map_option int (py_nat cs)
           else map_option int (py_nat s)))"

text \<open>\<open>str(n)\<close> of an integer, as an f-string interpolates it.\<close>

fun nat_digits :: "nat \<Rightarrow> string" where
  "nat_digits n =
     (if n < 10 then [char_of (48 + n)]
      else nat_digits (n div 10) @ [char_of (48 + n mod 10)])"

definition py_str :: "int \<Rightarrow> string" where
  "py_str i = (if i < 0 then CHR ''-'' # nat_digits (nat (- i)) else nat_digits (nat i))"

subsection \<open>The accumulator\<close>

text \<open>The value dictionary of one junction (the dictionary literal at lines 100 to 109).\<close>

record junction =
  chr :: string
  start :: string
  end_field :: string
  strand :: string
  splice_sites :: string
  coverage :: int
  multimap_coverage :: int
  alignment_overhang :: int

type_synonym JunctionHash = "(string \<times> junction) list"

text \<open>The key \<open>f"{chr}:{start}-{end}:{strand}"\<close>, built from the text of the fields.\<close>

definition junction_key :: "string \<Rightarrow> string \<Rightarrow> string \<Rightarrow> string \<Rightarrow> string" where
  "junction_key c s e st = c @ '':'' @ s @ ''-'' @ e @ '':'' @ st"

text \<open>\<open>d[key] = f(d[key])\<close> for a key of the dictionary: the entry changes in place.\<close>

fun dict_modify :: "string \<Rightarrow> (junction \<Rightarrow> junction) \<Rightarrow> JunctionHash \<Rightarrow> JunctionHash" where
  "dict_modify key f [] = []"
| "dict_modify key f ((k, v) # rest) =
     (if k = key then (k, f v) # rest else (k, v) # dict_modify key f rest)"

text \<open>
  Lines 87 to 111: the key is looked up; a known key has the counters of the line added
  (coverage, then multimap coverage) and the overhang raised to the maximum, a new key
  is inserted with the text of the line and its three counters.
\<close>

definition accumulate ::
  "JunctionHash \<Rightarrow> string \<Rightarrow> string \<Rightarrow> string \<Rightarrow> string \<Rightarrow> string \<Rightarrow> string \<Rightarrow> string \<Rightarrow> string
     \<Rightarrow> py_error + JunctionHash" where
  "accumulate accumulator c s e st ss cov mm oh =
     (let key = junction_key c s e st in
      if key \<in> fst ` set accumulator then
        (case py_int cov of
           None \<Rightarrow> Inl ValueError
         | Some cv \<Rightarrow>
             (case py_int mm of
                None \<Rightarrow> Inl ValueError
              | Some mv \<Rightarrow>
                  (case py_int oh of
                     None \<Rightarrow> Inl ValueError
                   | Some ov \<Rightarrow>
                       Inr (dict_modify key
                              (\<lambda>v. v\<lparr>coverage := coverage v + cv,
                                      multimap_coverage := multimap_coverage v + mv,
                                      alignment_overhang := max (alignment_overhang v) ov\<rparr>)
                              accumulator))))
      else
        (case py_int cov of
           None \<Rightarrow> Inl ValueError
         | Some cv \<Rightarrow>
             (case py_int mm of
                None \<Rightarrow> Inl ValueError
              | Some mv \<Rightarrow>
                  (case py_int oh of
                     None \<Rightarrow> Inl ValueError
                   | Some ov \<Rightarrow>
                       Inr (accumulator @
                              [(key, \<lparr>chr = c, start = s, end_field = e, strand = st,
                                      splice_sites = ss, coverage = cv,
                                      multimap_coverage = mv, alignment_overhang = ov\<rparr>)])))))"

text \<open>
  The body of the inner loop (lines 60 to 111) on one line: \<open>Inr\<close> of the accumulator
  after the line (unchanged where the source says \<open>continue\<close>), \<open>Inl\<close> where it raises.
  The guard is \<open>len(fields) < 8\<close>; the unpacking into nine names raises for every other
  number of fields than nine. \<open>int(end)\<close> is evaluated before \<open>int(start)\<close>.
\<close>

definition process_line :: "int \<Rightarrow> JunctionHash \<Rightarrow> string \<Rightarrow> py_error + JunctionHash" where
  "process_line min_junction_length accumulator line =
     (let fields = py_split (py_strip line) in
      if length fields < 8 then Inr accumulator
      else
        (case fields of
           [c, s, e, st, ss, annotated, cov, mm, oh] \<Rightarrow>
             (case py_int e of
                None \<Rightarrow> Inl ValueError
              | Some ei \<Rightarrow>
                  (case py_int s of
                     None \<Rightarrow> Inl ValueError
                   | Some si \<Rightarrow>
                       (if ei - si < min_junction_length then Inr accumulator
                        else
                          (case py_int annotated of
                             None \<Rightarrow> Inl ValueError
                           | Some a \<Rightarrow>
                               (if a = 1 then Inr accumulator
                                else accumulate accumulator c s e st ss cov mm oh)))))
         | _ \<Rightarrow> Inl ValueError))"

text \<open>The inner loop over the lines of one file, and the outer loop over the files.\<close>

fun process_lines :: "int \<Rightarrow> JunctionHash \<Rightarrow> string list \<Rightarrow> py_error + JunctionHash" where
  "process_lines min_junction_length accumulator [] = Inr accumulator"
| "process_lines min_junction_length accumulator (line # rest) =
     (case process_line min_junction_length accumulator line of
        Inl err \<Rightarrow> Inl err
      | Inr accumulator' \<Rightarrow> process_lines min_junction_length accumulator' rest)"

fun process_files :: "int \<Rightarrow> JunctionHash \<Rightarrow> string list list \<Rightarrow> py_error + JunctionHash" where
  "process_files min_junction_length accumulator [] = Inr accumulator"
| "process_files min_junction_length accumulator (junction # rest) =
     (case process_lines min_junction_length accumulator junction of
        Inl err \<Rightarrow> Inl err
      | Inr accumulator' \<Rightarrow> process_files min_junction_length accumulator' rest)"

definition read_junctions :: "string list list \<Rightarrow> int \<Rightarrow> py_error + JunctionHash" where
  "read_junctions junctions min_junction_length =
     process_files min_junction_length [] junctions"

subsection \<open>The writer\<close>

definition tab :: string where
  "tab = [CHR 0x09]"

definition newline :: string where
  "newline = [CHR 0x0A]"

text \<open>The f-string of line 135: five fields of text, the constant 1, three counters.\<close>

definition format_line :: "junction \<Rightarrow> string" where
  "format_line v =
     chr v @ tab @ start v @ tab @ end_field v @ tab @ strand v @ tab @ splice_sites v @ tab @
     ''1'' @ tab @ py_str (coverage v) @ tab @ py_str (multimap_coverage v) @ tab @
     py_str (alignment_overhang v)"

text \<open>
  \<open>_write_junctions\<close>: the text written to \<open>ALL_SJ_out_filtered.tab\<close>, the entries in
  insertion order, each a line and a newline, an entry below the threshold passed over.
\<close>

fun write_junctions :: "JunctionHash \<Rightarrow> int \<Rightarrow> string" where
  "write_junctions [] min_junction_coverage = []"
| "write_junctions ((key, v) # rest) min_junction_coverage =
     (if coverage v < min_junction_coverage then write_junctions rest min_junction_coverage
      else format_line v @ newline @ write_junctions rest min_junction_coverage)"

text \<open>\<open>run\<close>: read every file, then write; the result is the content of the output file.\<close>

definition run :: "string list list \<Rightarrow> int \<Rightarrow> int \<Rightarrow> py_error + string" where
  "run junctions min_junction_length min_junction_coverage =
     (case read_junctions junctions min_junction_length of
        Inl err \<Rightarrow> Inl err
      | Inr accumulator \<Rightarrow> Inr (write_junctions accumulator min_junction_coverage))"

subsection \<open>Auxiliary notions for the proofs\<close>

text \<open>
  These are not part of the script. \<open>merge_junction w v\<close> is the entry \<open>w\<close> after a record
  with the counters of \<open>v\<close> has been merged into it; \<open>upsert\<close> is what \<open>accumulate\<close> does
  with a record given as the entry \<open>(key, value)\<close> it would create in an empty dictionary;
  \<open>records m ls\<close> lists those entries for the lines of \<open>ls\<close> that pass both gates;
  \<open>pool\<close> folds the records of one key into its entry.
\<close>

definition merge_junction :: "junction \<Rightarrow> junction \<Rightarrow> junction" where
  "merge_junction w v =
     w\<lparr>coverage := coverage w + coverage v,
       multimap_coverage := multimap_coverage w + multimap_coverage v,
       alignment_overhang := max (alignment_overhang w) (alignment_overhang v)\<rparr>"

definition upsert :: "JunctionHash \<Rightarrow> string \<times> junction \<Rightarrow> JunctionHash" where
  "upsert acc r =
     (if fst r \<in> fst ` set acc then dict_modify (fst r) (\<lambda>w. merge_junction w (snd r)) acc
      else acc @ [r])"

definition records :: "int \<Rightarrow> string list \<Rightarrow> (string \<times> junction) list" where
  "records m ls = concat (map (\<lambda>l. case process_line m [] l of Inl e \<Rightarrow> [] | Inr r \<Rightarrow> r) ls)"

fun pool :: "junction option \<Rightarrow> junction list \<Rightarrow> junction option" where
  "pool None [] = None"
| "pool None (v # vs) = Some (foldl merge_junction v vs)"
| "pool (Some w) vs = Some (foldl merge_junction w vs)"

text \<open>
  The specification's JunctionKey of a line of nine fields, as its section 3 words it: the
  tuple of chrom, start as an integer, end as an integer, and strand. It is used only to
  compare the specification with \<open>junction_key\<close>.
\<close>

definition spec_junction_key :: "string \<Rightarrow> (string \<times> int \<times> int \<times> string) option" where
  "spec_junction_key line =
     (case py_split (py_strip line) of
        [c, s, e, st, ss, annotated, cov, mm, oh] \<Rightarrow>
          (case py_int s of
             None \<Rightarrow> None
           | Some si \<Rightarrow> (case py_int e of None \<Rightarrow> None | Some ei \<Rightarrow> Some (c, si, ei, st)))
      | _ \<Rightarrow> None)"

text \<open>The two files of the worked example of the specification's section 8, and variants.\<close>

definition example_line_a :: string where
  "example_line_a = ''chr1 100 200 + GT/AG 0 3 1 10''"

definition example_line_b :: string where
  "example_line_b = ''chr1 100 200 + GT/AG 0 4 2 12''"

section \<open>Properties\<close>

subsection \<open>How a line acts on the accumulator\<close>

lemma accumulate_empty:
  "accumulate [] c s e st ss cov mm oh = Inr r \<Longrightarrow>
   \<exists>cv mv ov. py_int cov = Some cv \<and> py_int mm = Some mv \<and> py_int oh = Some ov \<and>
     r = [(junction_key c s e st, \<lparr>chr = c, start = s, end_field = e, strand = st,
            splice_sites = ss, coverage = cv, multimap_coverage = mv, alignment_overhang = ov\<rparr>)]"
  by (auto simp: accumulate_def split: option.splits)

lemma accumulate_upsert:
  "accumulate acc c s e st ss cov mm oh =
     map_sum id (foldl upsert acc) (accumulate [] c s e st ss cov mm oh)"
  by (auto simp: accumulate_def upsert_def merge_junction_def Let_def split: option.splits)

lemma process_line_upsert:
  "process_line m acc line = map_sum id (foldl upsert acc) (process_line m [] line)"
  unfolding process_line_def Let_def
  by (simp add: accumulate_upsert[of acc] split: list.splits option.splits)

lemma process_line_shape:
  "process_line m [] line = Inr r \<Longrightarrow> r = [] \<or> (\<exists>k v. r = [(k, v)])"
  unfolding process_line_def Let_def
  by (auto split: list.splits option.splits if_splits dest!: accumulate_empty)

lemma process_lines_records:
  "process_lines m acc ls =
     (if \<exists>l \<in> set ls. process_line m [] l = Inl ValueError then Inl ValueError
      else Inr (foldl upsert acc (records m ls)))"
proof (induction ls arbitrary: acc)
  case Nil
  show ?case by (simp add: records_def)
next
  case (Cons l ls)
  show ?case
  proof (cases "process_line m [] l")
    case (Inl e)
    then show ?thesis by (cases e) (simp add: process_line_upsert[of m acc])
  next
    case (Inr r)
    then show ?thesis
      by (simp add: process_line_upsert[of m acc] Cons.IH records_def)
  qed
qed

lemma process_files_concat:
  "process_files m acc fs = process_lines m acc (concat fs)"
proof (induction fs arbitrary: acc)
  case Nil show ?case by simp
next
  case (Cons f fs)
  have app: "\<And>a xs ys. process_lines m a (xs @ ys) =
     (case process_lines m a xs of Inl e \<Rightarrow> Inl e | Inr a' \<Rightarrow> process_lines m a' ys)"
    subgoal for a xs ys
      by (induction xs arbitrary: a) (auto split: sum.splits)
    done
  show ?case by (simp add: app Cons.IH split: sum.splits)
qed

lemma read_junctions_records:
  "read_junctions fs m =
     (if \<exists>l \<in> set (concat fs). process_line m [] l = Inl ValueError then Inl ValueError
      else Inr (foldl upsert [] (records m (concat fs))))"
  unfolding read_junctions_def process_files_concat process_lines_records ..


lemma dict_modify_keys: "map fst (dict_modify k f acc) = map fst acc"
  by (induction acc) auto

lemma map_of_dict_modify:
  "map_of (dict_modify k f acc) k' =
     (if k' = k then map_option f (map_of acc k) else map_of acc k')"
  by (induction acc) auto

lemma upsert_keys:
  "map fst (upsert acc r) = (if fst r \<in> fst ` set acc then map fst acc else map fst acc @ [fst r])"
  by (simp add: upsert_def dict_modify_keys)

lemma upsert_distinct: "distinct (map fst acc) \<Longrightarrow> distinct (map fst (upsert acc r))"
  by (simp add: upsert_keys)

lemma foldl_upsert_distinct:
  "distinct (map fst acc) \<Longrightarrow> distinct (map fst (foldl upsert acc rs))"
  by (induction rs arbitrary: acc) (simp_all add: upsert_distinct)

lemma map_of_upsert:
  "map_of (upsert acc r) k =
     (if k = fst r then pool (map_of acc k) [snd r] else map_of acc k)"
proof (cases "fst r \<in> fst ` set acc")
  case True
  then obtain w where "map_of acc (fst r) = Some w"
    by (metis map_of_eq_None_iff not_Some_eq)
  with True show ?thesis
    by (simp add: upsert_def map_of_dict_modify)
next
  case False
  then have "map_of acc (fst r) = None"
    by (simp add: map_of_eq_None_iff)
  with False show ?thesis
    by (cases r) (auto simp: upsert_def map_add_def split: option.splits)
qed

lemma pool_Cons: "pool (pool x [v]) vs = pool x (v # vs)"
  by (cases x) simp_all

lemma map_of_foldl_upsert:
  "map_of (foldl upsert acc rs) k =
     pool (map_of acc k) (map snd (filter (\<lambda>r. fst r = k) rs))"
proof (induction rs arbitrary: acc)
  case Nil
  show ?case by (cases "map_of acc k") simp_all
next
  case (Cons r rs)
  show ?case by (simp add: Cons.IH map_of_upsert pool_Cons)
qed

lemma merge_junction_fields:
  "chr (merge_junction w v) = chr w"
  "start (merge_junction w v) = start w"
  "end_field (merge_junction w v) = end_field w"
  "strand (merge_junction w v) = strand w"
  "splice_sites (merge_junction w v) = splice_sites w"
  "coverage (merge_junction w v) = coverage w + coverage v"
  "multimap_coverage (merge_junction w v) = multimap_coverage w + multimap_coverage v"
  "alignment_overhang (merge_junction w v) = max (alignment_overhang w) (alignment_overhang v)"
  by (simp_all add: merge_junction_def)

lemma foldl_merge_text:
  "chr (foldl merge_junction w vs) = chr w \<and>
   start (foldl merge_junction w vs) = start w \<and>
   end_field (foldl merge_junction w vs) = end_field w \<and>
   strand (foldl merge_junction w vs) = strand w \<and>
   splice_sites (foldl merge_junction w vs) = splice_sites w"
  by (induction vs arbitrary: w) (simp_all add: merge_junction_fields)

lemma foldl_merge_coverage:
  "coverage (foldl merge_junction w vs) = sum_list (map coverage (w # vs))"
  by (induction vs arbitrary: w) (simp_all add: merge_junction_fields)

lemma foldl_merge_multimap:
  "multimap_coverage (foldl merge_junction w vs) = sum_list (map multimap_coverage (w # vs))"
  by (induction vs arbitrary: w) (simp_all add: merge_junction_fields)

lemma foldl_merge_overhang:
  "alignment_overhang (foldl merge_junction w vs) =
     Max (set (map alignment_overhang (w # vs)))"
proof (induction vs arbitrary: w)
  case Nil
  show ?case by simp
next
  case (Cons v vs)
  let ?A = "alignment_overhang ` set vs"
  have "alignment_overhang (foldl merge_junction w (v # vs)) =
        Max (insert (max (alignment_overhang w) (alignment_overhang v)) ?A)"
    by (simp add: Cons.IH merge_junction_fields)
  also have "\<dots> = Max (insert (alignment_overhang w) (insert (alignment_overhang v) ?A))"
    by (cases "set vs = {}") (simp_all add: max.assoc)
  finally show ?case by simp
qed

lemma pool_None_Some:
  assumes "pool None vs = Some x"
  shows "vs \<noteq> []"
    and "coverage x = sum_list (map coverage vs)"
    and "multimap_coverage x = sum_list (map multimap_coverage vs)"
    and "alignment_overhang x = Max (set (map alignment_overhang vs))"
    and "chr x = chr (hd vs)" and "start x = start (hd vs)"
    and "end_field x = end_field (hd vs)" and "strand x = strand (hd vs)"
    and "splice_sites x = splice_sites (hd vs)"
proof -
  from assms obtain v vs' where vs: "vs = v # vs'" and x: "x = foldl merge_junction v vs'"
    by (cases vs) auto
  show "vs \<noteq> []" by (simp add: vs)
  show "coverage x = sum_list (map coverage vs)"
    unfolding vs x by (rule foldl_merge_coverage)
  show "multimap_coverage x = sum_list (map multimap_coverage vs)"
    unfolding vs x by (rule foldl_merge_multimap)
  show "alignment_overhang x = Max (set (map alignment_overhang vs))"
    unfolding vs x by (rule foldl_merge_overhang)
  show "chr x = chr (hd vs)" "start x = start (hd vs)"
    "end_field x = end_field (hd vs)" "strand x = strand (hd vs)"
    "splice_sites x = splice_sites (hd vs)"
    by (simp_all add: vs x foldl_merge_text)
qed

lemma pool_None_iff: "pool None vs = None \<longleftrightarrow> vs = []"
  by (cases vs) simp_all


lemma process_line_record:
  assumes "process_line m [] line = Inr [(k, v)]"
  shows "\<exists>an cov mm oh ei si a.
     py_split (py_strip line) =
       [chr v, start v, end_field v, strand v, splice_sites v, an, cov, mm, oh] \<and>
     k = junction_key (chr v) (start v) (end_field v) (strand v) \<and>
     py_int (end_field v) = Some ei \<and> py_int (start v) = Some si \<and> m \<le> ei - si \<and>
     py_int an = Some a \<and> a \<noteq> 1 \<and>
     py_int cov = Some (coverage v) \<and> py_int mm = Some (multimap_coverage v) \<and>
     py_int oh = Some (alignment_overhang v)"
  using assms unfolding process_line_def Let_def
  by (auto split: list.splits option.splits if_splits dest!: accumulate_empty)

lemma records_first:
  assumes "map snd (filter (\<lambda>r. fst r = k) (records m ls)) = v # vs"
  shows "\<exists>pre l post. ls = pre @ l # post \<and>
           (\<forall>l' \<in> set pre. \<forall>v'. process_line m [] l' \<noteq> Inr [(k, v')]) \<and>
           process_line m [] l = Inr [(k, v)]"
  using assms
proof (induction ls)
  case Nil
  then show ?case by (simp add: records_def)
next
  case (Cons a ls)
  have rec: "records m (a # ls) =
      (case process_line m [] a of Inl e \<Rightarrow> [] | Inr r \<Rightarrow> r) @ records m ls"
    by (simp add: records_def)
  show ?case
  proof (cases "\<exists>v'. process_line m [] a = Inr [(k, v')]")
    case True
    then obtain v' where a: "process_line m [] a = Inr [(k, v')]" by blast
    with Cons.prems have "v' = v" by (simp add: rec)
    with a have "a # ls = [] @ a # ls \<and>
           (\<forall>l' \<in> set []. \<forall>v'. process_line m [] l' \<noteq> Inr [(k, v')]) \<and>
           process_line m [] a = Inr [(k, v)]" by simp
    then show ?thesis by blast
  next
    case False
    have "filter (\<lambda>r. fst r = k) (case process_line m [] a of Inl e \<Rightarrow> [] | Inr r \<Rightarrow> r) = []"
    proof (cases "process_line m [] a")
      case (Inl e)
      then show ?thesis by simp
    next
      case (Inr r)
      with process_line_shape[OF Inr] False show ?thesis by auto
    qed
    with Cons.prems have "map snd (filter (\<lambda>r. fst r = k) (records m ls)) = v # vs"
      by (simp add: rec)
    from Cons.IH[OF this] obtain pre l post where
      "ls = pre @ l # post"
      "\<forall>l' \<in> set pre. \<forall>v'. process_line m [] l' \<noteq> Inr [(k, v')]"
      "process_line m [] l = Inr [(k, v)]" by blast
    with False have "a # ls = (a # pre) @ l # post \<and>
           (\<forall>l' \<in> set (a # pre). \<forall>v'. process_line m [] l' \<noteq> Inr [(k, v')]) \<and>
           process_line m [] l = Inr [(k, v)]" by simp
    then show ?thesis by blast
  qed
qed

lemma records_mset:
  "mset ls = mset ls' \<Longrightarrow> mset (records m ls) = mset (records m ls')"
  unfolding records_def mset_concat
  by (metis (no_types) mset_map sum_mset_sum_list)

lemma concat_mset:
  "mset (fs :: 'a list list) = mset fs' \<Longrightarrow> mset (concat fs) = mset (concat fs')"
  unfolding mset_concat
  by (metis (no_types) mset_map sum_mset_sum_list)

lemma process_line_accepted:
  assumes "py_split (py_strip line) = [c, s, e, st, ss, an, cov, mm, oh]"
    and "py_int e = Some ei" and "py_int s = Some si" and "m \<le> ei - si"
    and "py_int an = Some a" and "a \<noteq> 1"
  shows "process_line m acc line = accumulate acc c s e st ss cov mm oh"
  using assms by (simp add: process_line_def)

subsection \<open>Merging a repeated key\<close>

text \<open>
  Claim C1. When a line that passes both gates has a key that the accumulator already
  holds, the entry of that key gets the line's coverage and multimap coverage added and
  its overhang raised to the maximum of the stored and the incoming value; its text
  fields, \<open>splice_sites\<close> among them, stay as first seen, no other entry changes and the
  order of the keys stays. On the worked example of the specification (two files of one
  line each, thresholds 50 and 5) the output file is the single line
  \<open>chr1 100 200 + GT/AG 1 7 3 12\<close>, tab-separated.
\<close>

theorem merge_repeated_key:
  assumes "py_split (py_strip line) = [c, s, e, st, ss, an, cov, mm, oh]"
    and "py_int e = Some ei" and "py_int s = Some si" and "m \<le> ei - si"
    and "py_int an = Some a" and "a \<noteq> 1"
    and "py_int cov = Some cv" and "py_int mm = Some mv" and "py_int oh = Some ov"
    and "map_of acc (junction_key c s e st) = Some w"
  shows "(\<exists>acc'. process_line m acc line = Inr acc' \<and>
            map fst acc' = map fst acc \<and>
            map_of acc' (junction_key c s e st) =
              Some (w\<lparr>coverage := coverage w + cv,
                       multimap_coverage := multimap_coverage w + mv,
                       alignment_overhang := max (alignment_overhang w) ov\<rparr>) \<and>
            (\<forall>k. k \<noteq> junction_key c s e st \<longrightarrow> map_of acc' k = map_of acc k)) \<and>
         run [[example_line_a], [example_line_b]] 50 5 =
           Inr (''chr1'' @ tab @ ''100'' @ tab @ ''200'' @ tab @ ''+'' @ tab @ ''GT/AG'' @ tab @
                ''1'' @ tab @ ''7'' @ tab @ ''3'' @ tab @ ''12'' @ newline)"
proof -
  let ?key = "junction_key c s e st"
  let ?f = "\<lambda>v. v\<lparr>coverage := coverage v + cv,
                   multimap_coverage := multimap_coverage v + mv,
                   alignment_overhang := max (alignment_overhang v) ov\<rparr>"
  from assms(10) have mem: "?key \<in> fst ` set acc"
    by (metis map_of_eq_None_iff option.distinct(1))
  have "process_line m acc line = accumulate acc c s e st ss cov mm oh"
    using assms(1-6) by (rule process_line_accepted)
  also have "\<dots> = Inr (dict_modify ?key ?f acc)"
    using mem assms(7-9) by (simp add: accumulate_def)
  finally have step: "process_line m acc line = Inr (dict_modify ?key ?f acc)" .
  have "map fst (dict_modify ?key ?f acc) = map fst acc"
    by (rule dict_modify_keys)
  moreover have "map_of (dict_modify ?key ?f acc) ?key = Some (?f w)"
    using assms(10) by (simp add: map_of_dict_modify)
  moreover have "\<forall>k. k \<noteq> ?key \<longrightarrow> map_of (dict_modify ?key ?f acc) k = map_of acc k"
    by (simp add: map_of_dict_modify)
  moreover have "run [[example_line_a], [example_line_b]] 50 5 =
           Inr (''chr1'' @ tab @ ''100'' @ tab @ ''200'' @ tab @ ''+'' @ tab @ ''GT/AG'' @ tab @
                ''1'' @ tab @ ''7'' @ tab @ ''3'' @ tab @ ''12'' @ newline)"
    by code_simp
  ultimately show ?thesis using step by blast
qed

text \<open>The theorem at a stored entry with splice sites \<open>GT/AG\<close> and a second record that says \<open>CT/AC\<close>.\<close>

theorem merge_repeated_key_witness:
  "\<exists>acc'. process_line 50
       [(''chr1:100-200:+'',
         \<lparr>chr = ''chr1'', start = ''100'', end_field = ''200'', strand = ''+'',
          splice_sites = ''GT/AG'', coverage = 3, multimap_coverage = 1,
          alignment_overhang = 10\<rparr>)]
       ''chr1 100 200 + CT/AC 0 4 2 12'' = Inr acc' \<and>
     map_of acc' ''chr1:100-200:+'' =
       Some \<lparr>chr = ''chr1'', start = ''100'', end_field = ''200'', strand = ''+'',
             splice_sites = ''GT/AG'', coverage = 7, multimap_coverage = 3,
             alignment_overhang = 12\<rparr>"
proof -
  let ?w = "\<lparr>chr = ''chr1'', start = ''100'', end_field = ''200'', strand = ''+'',
          splice_sites = ''GT/AG'', coverage = 3, multimap_coverage = 1,
          alignment_overhang = 10\<rparr>"
  have f: "py_split (py_strip ''chr1 100 200 + CT/AC 0 4 2 12'') =
      [''chr1'', ''100'', ''200'', ''+'', ''CT/AC'', ''0'', ''4'', ''2'', ''12'']"
    by code_simp
  have e: "py_int ''200'' = Some 200" by code_simp
  have s: "py_int ''100'' = Some 100" by code_simp
  have a: "py_int ''0'' = Some 0" by code_simp
  have c: "py_int ''4'' = Some 4" by code_simp
  have mm: "py_int ''2'' = Some 2" by code_simp
  have o: "py_int ''12'' = Some 12" by code_simp
  have k: "map_of [(''chr1:100-200:+'', ?w)] (junction_key ''chr1'' ''100'' ''200'' ''+'') = Some ?w"
    by (simp add: junction_key_def)
  have len: "(50::int) \<le> 200 - 100" and ann: "(0::int) \<noteq> 1" by simp_all
  have key: "junction_key ''chr1'' ''100'' ''200'' ''+'' = ''chr1:100-200:+''"
    by (simp add: junction_key_def)
  from merge_repeated_key[OF f e s len a ann c mm o k]
  obtain acc' where
    "process_line 50 [(''chr1:100-200:+'', ?w)] ''chr1 100 200 + CT/AC 0 4 2 12'' = Inr acc'"
    "map_of acc' (junction_key ''chr1'' ''100'' ''200'' ''+'') =
       Some (?w\<lparr>coverage := coverage ?w + 4, multimap_coverage := multimap_coverage ?w + 2,
                 alignment_overhang := max (alignment_overhang ?w) 12\<rparr>)"
    by blast
  then show ?thesis by (simp add: key)
qed

subsection \<open>Lines with the wrong number of fields\<close>

text \<open>
  Claim C2 says that every line of fewer than nine fields is skipped. The guard of the
  source is \<open>len(fields) < 8\<close>, so a line of exactly eight fields passes it and the
  unpacking into nine names raises \<open>ValueError\<close>, which ends the run.
\<close>

theorem eight_fields_raise:
  "length (py_split (py_strip ''chr1 100 200 + GT/AG 0 3 1'')) = 8 \<and>
   process_line 50 [] ''chr1 100 200 + GT/AG 0 3 1'' = Inl ValueError \<and>
   run [[''chr1 100 200 + GT/AG 0 3 1'']] 50 5 = Inl ValueError"
  by code_simp

text \<open>
  Claim C3 says that columns after the ninth are ignored. The source unpacks the whole
  list into nine names, so the line of the example with a tenth column raises, while the
  same line without it is ingested.
\<close>

theorem extra_columns_counterexample:
  "process_line 50 [] ''chr1 100 200 + GT/AG 0 3 1 10'' =
     Inr [(''chr1:100-200:+'',
           \<lparr>chr = ''chr1'', start = ''100'', end_field = ''200'', strand = ''+'',
            splice_sites = ''GT/AG'', coverage = 3, multimap_coverage = 1,
            alignment_overhang = 10\<rparr>)] \<and>
   process_line 50 [] ''chr1 100 200 + GT/AG 0 3 1 10 extra'' = Inl ValueError"
  by code_simp

text \<open>
  Claim C3, amended: a line of more than nine fields raises \<open>ValueError\<close> whatever the
  accumulator holds, and a run over files that contain such a line ends with that error
  and writes nothing.
\<close>

theorem extra_columns_raise:
  assumes "9 < length (py_split (py_strip line))"
  shows "process_line m acc line = Inl ValueError \<and>
         (\<forall>junctions. line \<in> set (concat junctions) \<longrightarrow>
            run junctions m min_junction_coverage = Inl ValueError)"
proof -
  have *: "process_line m a line = Inl ValueError" for a
    using assms unfolding process_line_def Let_def
    by (auto split: list.splits)
  from *[of "[]"] have "run junctions m min_junction_coverage = Inl ValueError"
    if "line \<in> set (concat junctions)" for junctions
    using that unfolding run_def read_junctions_records by auto
  with *[of acc] show ?thesis by blast
qed

theorem extra_columns_raise_witness:
  "process_line 50 [] ''chr1 100 200 + GT/AG 0 3 1 10 extra'' = Inl ValueError \<and>
   run [[example_line_a], [''chr1 100 200 + GT/AG 0 3 1 10 extra'']] 50 5 = Inl ValueError"
proof -
  have "9 < length (py_split (py_strip ''chr1 100 200 + GT/AG 0 3 1 10 extra''))"
    by code_simp
  from extra_columns_raise[OF this, of 50 "[]" 5] show ?thesis
    by simp
qed

lemma records_member:
  "(k, v) \<in> set (records m ls) \<Longrightarrow> \<exists>l \<in> set ls. process_line m [] l = Inr [(k, v)]"
proof -
  assume "(k, v) \<in> set (records m ls)"
  then obtain l where l: "l \<in> set ls"
    and kv: "(k, v) \<in> set (case process_line m [] l of Inl e \<Rightarrow> [] | Inr r \<Rightarrow> r)"
    by (auto simp: records_def)
  then obtain r where r: "process_line m [] l = Inr r" and "(k, v) \<in> set r"
    by (cases "process_line m [] l") auto
  with process_line_shape[OF r] have "r = [(k, v)]" by auto
  with l r show ?thesis by blast
qed

lemma foldl_upsert_keys:
  "fst ` set (foldl upsert acc rs) = fst ` set acc \<union> fst ` set rs"
proof (induction rs arbitrary: acc)
  case Nil
  show ?case by simp
next
  case (Cons r rs)
  have "set (map fst (upsert acc r)) = insert (fst r) (fst ` set acc)"
    unfolding upsert_keys by (simp add: insert_absorb)
  then have "fst ` set (upsert acc r) = insert (fst r) (fst ` set acc)"
    by simp
  then show ?case by (simp add: Cons.IH)
qed

subsection \<open>The two gates at ingest\<close>

text \<open>
  Claim C6. A line of nine fields whose annotated field reads as the integer 1 never adds
  an entry and never changes one: the accumulator after the line is the accumulator
  before it (when start and end are integers; otherwise the line raises before the
  annotation is looked at). Hence every key of the final dictionary was spelled by a line
  whose annotated field is an integer other than 1, and a key that only annotated lines
  carry is absent from the dictionary, hence from the output, whatever its coverage.
\<close>

theorem annotated_dropped:
  assumes "py_split (py_strip line) = [c, s, e, st, ss, an, cov, mm, oh]"
    and "py_int an = Some 1"
  shows "(process_line m acc line = Inr acc \<or> process_line m acc line = Inl ValueError) \<and>
         (py_int e \<noteq> None \<and> py_int s \<noteq> None \<longrightarrow> process_line m acc line = Inr acc) \<and>
         (\<forall>junctions final key.
            read_junctions junctions m = Inr final \<and> key \<in> fst ` set final \<longrightarrow>
            (\<exists>l \<in> set (concat junctions). \<exists>c' s' e' st' ss' an' cov' mm' oh' a.
               py_split (py_strip l) = [c', s', e', st', ss', an', cov', mm', oh'] \<and>
               key = junction_key c' s' e' st' \<and> py_int an' = Some a \<and> a \<noteq> 1))"
proof -
  have one: "process_line m acc line = Inr acc \<or> process_line m acc line = Inl ValueError"
    using assms by (simp add: process_line_def split: option.splits)
  have two: "py_int e \<noteq> None \<and> py_int s \<noteq> None \<longrightarrow> process_line m acc line = Inr acc"
    using assms by (auto simp: process_line_def split: option.splits)
  have three: "\<exists>l \<in> set (concat junctions). \<exists>c' s' e' st' ss' an' cov' mm' oh' a.
               py_split (py_strip l) = [c', s', e', st', ss', an', cov', mm', oh'] \<and>
               key = junction_key c' s' e' st' \<and> py_int an' = Some a \<and> a \<noteq> 1"
    if rd: "read_junctions junctions m = Inr final" and key: "key \<in> fst ` set final"
    for junctions final key
  proof -
    from rd have "final = foldl upsert [] (records m (concat junctions))"
      by (simp add: read_junctions_records split: if_splits)
    with key have "key \<in> fst ` set (records m (concat junctions))"
      by (simp add: foldl_upsert_keys)
    then obtain v where "(key, v) \<in> set (records m (concat junctions))" by auto
    from records_member[OF this] obtain l where l: "l \<in> set (concat junctions)"
      and "process_line m [] l = Inr [(key, v)]" by blast
    from process_line_record[OF this(2)] l show ?thesis by blast
  qed
  from one two three show ?thesis by blast
qed

theorem annotated_dropped_witness:
  "process_line 50 [] ''chr1 100 200 + GT/AG 1 30 1 10'' = Inr [] \<and>
   read_junctions [[''chr1 100 200 + GT/AG 1 30 1 10'']] 50 = Inr []"
proof -
  have f: "py_split (py_strip ''chr1 100 200 + GT/AG 1 30 1 10'') =
      [''chr1'', ''100'', ''200'', ''+'', ''GT/AG'', ''1'', ''30'', ''1'', ''10'']"
    by code_simp
  have a: "py_int ''1'' = Some 1" by code_simp
  have e: "py_int ''200'' \<noteq> None" and s: "py_int ''100'' \<noteq> None" by code_simp+
  from annotated_dropped[OF f a, of 50 "[]"] e s
  have "process_line 50 [] ''chr1 100 200 + GT/AG 1 30 1 10'' = Inr []" by blast
  then show ?thesis by (simp add: read_junctions_def)
qed

text \<open>
  Claim C7. For a line of nine fields with integer start and end, the length gate skips
  the line without error exactly when \<open>end - start < min_junction_length\<close>: then the
  accumulator is unchanged. Otherwise an unannotated line with integer counters is
  ingested: its key holds the seeded or the merged entry afterwards. At the boundary, a
  threshold equal to \<open>end - start\<close> keeps the record and a threshold one above (the record
  is one short) skips it.
\<close>

theorem length_filter_boundary:
  assumes "py_split (py_strip line) = [c, s, e, st, ss, an, cov, mm, oh]"
    and "py_int e = Some ei" and "py_int s = Some si"
  shows "(ei - si < m \<longrightarrow> process_line m acc line = Inr acc) \<and>
         (m \<le> ei - si \<and> py_int an = Some a \<and> a \<noteq> 1 \<and>
          py_int cov = Some cv \<and> py_int mm = Some mv \<and> py_int oh = Some ov \<longrightarrow>
            (\<exists>acc'. process_line m acc line = Inr acc' \<and>
               map_of acc' (junction_key c s e st) =
                 Some (case map_of acc (junction_key c s e st) of
                         None \<Rightarrow> \<lparr>chr = c, start = s, end_field = e, strand = st,
                                   splice_sites = ss, coverage = cv, multimap_coverage = mv,
                                   alignment_overhang = ov\<rparr>
                       | Some w \<Rightarrow> w\<lparr>coverage := coverage w + cv,
                                      multimap_coverage := multimap_coverage w + mv,
                                      alignment_overhang := max (alignment_overhang w) ov\<rparr>))) \<and>
         process_line (ei - si + 1) acc line = Inr acc \<and>
         (py_int an = Some a \<and> a \<noteq> 1 \<and>
          py_int cov = Some cv \<and> py_int mm = Some mv \<and> py_int oh = Some ov \<longrightarrow>
            process_line (ei - si) [] line =
              Inr [(junction_key c s e st,
                    \<lparr>chr = c, start = s, end_field = e, strand = st, splice_sites = ss,
                     coverage = cv, multimap_coverage = mv, alignment_overhang = ov\<rparr>)])"
proof -
  let ?key = "junction_key c s e st"
  let ?v = "\<lparr>chr = c, start = s, end_field = e, strand = st, splice_sites = ss,
            coverage = cv, multimap_coverage = mv, alignment_overhang = ov\<rparr>"
  have short: "process_line m' acc line = Inr acc" if "ei - si < m'" for m'
    using assms that by (simp add: process_line_def)
  have kept: "process_line m' a0 line = Inr (foldl upsert a0 [(?key, ?v)])"
    if "m' \<le> ei - si" "py_int an = Some a" "a \<noteq> 1"
       "py_int cov = Some cv" "py_int mm = Some mv" "py_int oh = Some ov" for m' a0
  proof -
    have "process_line m' [] line = accumulate [] c s e st ss cov mm oh"
      using assms that(1-3) by (rule process_line_accepted)
    also have "\<dots> = Inr [(?key, ?v)]"
      using that(4-6) by (simp add: accumulate_def)
    finally show ?thesis by (simp add: process_line_upsert[of m' a0])
  qed
  have look: "map_of (foldl upsert acc [(?key, ?v)]) ?key =
      Some (case map_of acc ?key of None \<Rightarrow> ?v
            | Some w \<Rightarrow> w\<lparr>coverage := coverage w + cv,
                           multimap_coverage := multimap_coverage w + mv,
                           alignment_overhang := max (alignment_overhang w) ov\<rparr>)"
    by (cases "map_of acc ?key") (simp_all add: map_of_upsert merge_junction_def)
  have b1: "process_line (ei - si + 1) acc line = Inr acc"
    by (rule short) simp
  have b2: "process_line (ei - si) [] line = Inr [(?key, ?v)]"
    if "py_int an = Some a" "a \<noteq> 1"
       "py_int cov = Some cv" "py_int mm = Some mv" "py_int oh = Some ov"
    using kept[of "ei - si" "[]"] that by (simp add: upsert_def)
  from short[of m] kept[of m acc] look b1 b2 show ?thesis by auto
qed

theorem length_filter_boundary_witness:
  "process_line 101 [] example_line_a = Inr [] \<and>
   process_line 100 [] example_line_a =
     Inr [(''chr1:100-200:+'',
           \<lparr>chr = ''chr1'', start = ''100'', end_field = ''200'', strand = ''+'',
            splice_sites = ''GT/AG'', coverage = 3, multimap_coverage = 1,
            alignment_overhang = 10\<rparr>)]"
proof -
  have f: "py_split (py_strip example_line_a) =
      [''chr1'', ''100'', ''200'', ''+'', ''GT/AG'', ''0'', ''3'', ''1'', ''10'']"
    by code_simp
  have e: "py_int ''200'' = Some 200" by code_simp
  have s: "py_int ''100'' = Some 100" by code_simp
  have a: "py_int ''0'' = Some 0" by code_simp
  have c: "py_int ''3'' = Some 3" by code_simp
  have mm: "py_int ''1'' = Some 1" by code_simp
  have o: "py_int ''10'' = Some 10" by code_simp
  have key: "junction_key ''chr1'' ''100'' ''200'' ''+'' = ''chr1:100-200:+''"
    by (simp add: junction_key_def)
  note lfb = length_filter_boundary[OF f e s, where m = 101 and acc = "[]" and a = 0
      and cv = 3 and mv = 1 and ov = 10]
  have "(200::int) - 100 < 101 \<longrightarrow> process_line 101 [] example_line_a = Inr []"
    by (rule lfb[THEN conjunct1])
  then have one: "process_line 101 [] example_line_a = Inr []" by simp
  have "py_int ''0'' = Some 0 \<and> (0::int) \<noteq> 1 \<and>
          py_int ''3'' = Some 3 \<and> py_int ''1'' = Some 1 \<and> py_int ''10'' = Some 10 \<longrightarrow>
            process_line (200 - 100) [] example_line_a =
              Inr [(junction_key ''chr1'' ''100'' ''200'' ''+'',
                    \<lparr>chr = ''chr1'', start = ''100'', end_field = ''200'', strand = ''+'',
                     splice_sites = ''GT/AG'', coverage = 3, multimap_coverage = 1,
                     alignment_overhang = 10\<rparr>)]"
    by (rule lfb[THEN conjunct2, THEN conjunct2, THEN conjunct2])
  with a c mm o have two: "process_line (200 - 100) [] example_line_a =
              Inr [(junction_key ''chr1'' ''100'' ''200'' ''+'',
                    \<lparr>chr = ''chr1'', start = ''100'', end_field = ''200'', strand = ''+'',
                     splice_sites = ''GT/AG'', coverage = 3, multimap_coverage = 1,
                     alignment_overhang = 10\<rparr>)]"
    by simp
  have "(200::int) - 100 = 100" by simp
  with one two key show ?thesis by simp
qed

lemma records_append: "records m (xs @ ys) = records m xs @ records m ys"
  by (simp add: records_def)

lemma foldl_upsert_known_keys:
  "fst ` set rs \<subseteq> fst ` set acc \<Longrightarrow> map fst (foldl upsert acc rs) = map fst acc"
proof (induction rs arbitrary: acc)
  case Nil
  show ?case by simp
next
  case (Cons r rs)
  from Cons.prems have r: "fst r \<in> fst ` set acc" by simp
  then have keys: "map fst (upsert acc r) = map fst acc"
    by (simp add: upsert_keys)
  then have "fst ` set (upsert acc r) = fst ` set acc"
    by (metis set_map)
  with Cons.prems have "fst ` set rs \<subseteq> fst ` set (upsert acc r)" by simp
  from Cons.IH[OF this] keys show ?case by simp
qed

lemma pool_twice:
  assumes "pool None vs = Some w"
  shows "pool (Some w) vs =
     Some (w\<lparr>coverage := 2 * coverage w, multimap_coverage := 2 * multimap_coverage w\<rparr>)"
proof -
  let ?x = "foldl merge_junction w vs"
  note p = pool_None_Some[OF assms]
  have fin: "finite (set (map alignment_overhang vs))" by simp
  have ne: "set (map alignment_overhang vs) \<noteq> {}" using p(1) by simp
  have "coverage ?x = coverage w + sum_list (map coverage vs)"
    using foldl_merge_coverage[of w vs] by simp
  then have c: "coverage ?x = 2 * coverage w" using p(2) by simp
  have "multimap_coverage ?x = multimap_coverage w + sum_list (map multimap_coverage vs)"
    using foldl_merge_multimap[of w vs] by simp
  then have mm: "multimap_coverage ?x = 2 * multimap_coverage w" using p(3) by simp
  have "alignment_overhang ?x =
      Max (insert (alignment_overhang w) (set (map alignment_overhang vs)))"
    using foldl_merge_overhang[of w vs] by simp
  also have "\<dots> = max (alignment_overhang w) (Max (set (map alignment_overhang vs)))"
    using fin ne by (rule Max_insert)
  also have "\<dots> = alignment_overhang w" using p(4) by simp
  finally have o: "alignment_overhang ?x = alignment_overhang w" .
  have "?x = w\<lparr>coverage := 2 * coverage w, multimap_coverage := 2 * multimap_coverage w\<rparr>"
    by (rule junction.equality) (simp_all add: c mm o foldl_merge_text)
  then show ?thesis by simp
qed

subsection \<open>The coverage gate of the writer\<close>

text \<open>
  Claim C8. The writer emits, in insertion order, the line of exactly those entries whose
  pooled coverage is at least \<open>min_junction_coverage\<close>: an entry whose coverage equals the
  threshold is written, an entry one below the threshold is not.
\<close>

theorem coverage_emission_filter:
  "write_junctions acc min_junction_coverage =
     concat (map (\<lambda>(key, v). format_line v @ newline)
               (filter (\<lambda>(key, v). min_junction_coverage \<le> coverage v) acc)) \<and>
   write_junctions [(key, v)] (coverage v) = format_line v @ newline \<and>
   write_junctions [(key, v)] (coverage v + 1) = []"
proof -
  have "write_junctions acc min_junction_coverage =
     concat (map (\<lambda>(key, v). format_line v @ newline)
               (filter (\<lambda>(key, v). min_junction_coverage \<le> coverage v) acc))"
    by (induction acc min_junction_coverage rule: write_junctions.induct) simp_all
  then show ?thesis by simp
qed

subsection \<open>Repeated records are summed, not deduplicated\<close>

text \<open>
  Claim C9. Ingesting the same accepted record twice, as two files of that one line or as
  two lines of one file, gives one entry whose coverage and multimap coverage are twice
  the record's and whose overhang is the record's. More generally, a file that reads
  without error, supplied twice, gives the keys of the single run in the same order, each
  entry with doubled coverage and multimap coverage and everything else as in the single
  run.
\<close>

theorem no_deduplication:
  assumes "py_split (py_strip line) = [c, s, e, st, ss, an, cov, mm, oh]"
    and "py_int e = Some ei" and "py_int s = Some si" and "m \<le> ei - si"
    and "py_int an = Some a" and "a \<noteq> 1"
    and "py_int cov = Some cv" and "py_int mm = Some mv" and "py_int oh = Some ov"
  shows "read_junctions [[line], [line]] m =
           Inr [(junction_key c s e st,
                 \<lparr>chr = c, start = s, end_field = e, strand = st, splice_sites = ss,
                  coverage = 2 * cv, multimap_coverage = 2 * mv, alignment_overhang = ov\<rparr>)] \<and>
         read_junctions [[line, line]] m = read_junctions [[line], [line]] m \<and>
         (\<forall>lines once. read_junctions [lines] m = Inr once \<longrightarrow>
            (\<exists>twice. read_junctions [lines, lines] m = Inr twice \<and>
               map fst twice = map fst once \<and>
               (\<forall>key w. map_of once key = Some w \<longrightarrow>
                  map_of twice key =
                    Some (w\<lparr>coverage := 2 * coverage w,
                             multimap_coverage := 2 * multimap_coverage w\<rparr>))))"
proof -
  let ?key = "junction_key c s e st"
  let ?v = "\<lparr>chr = c, start = s, end_field = e, strand = st, splice_sites = ss,
            coverage = cv, multimap_coverage = mv, alignment_overhang = ov\<rparr>"
  have acc: "process_line m a0 line = accumulate a0 c s e st ss cov mm oh" for a0
    using assms(1-6) by (rule process_line_accepted)
  have first: "process_line m [] line = Inr [(?key, ?v)]"
    using assms(7-9) by (simp add: acc accumulate_def)
  have second: "process_line m [(?key, ?v)] line =
      Inr [(?key, ?v\<lparr>coverage := 2 * cv, multimap_coverage := 2 * mv\<rparr>)]"
    using assms(7-9) by (simp add: acc accumulate_def)
  have one: "read_junctions [[line], [line]] m =
      Inr [(?key, ?v\<lparr>coverage := 2 * cv, multimap_coverage := 2 * mv\<rparr>)]"
    by (simp add: read_junctions_def first second)
  have two: "read_junctions [[line, line]] m = read_junctions [[line], [line]] m"
    by (simp add: read_junctions_def process_files_concat)
  have three: "\<exists>twice. read_junctions [lines, lines] m = Inr twice \<and>
               map fst twice = map fst once \<and>
               (\<forall>key w. map_of once key = Some w \<longrightarrow>
                  map_of twice key =
                    Some (w\<lparr>coverage := 2 * coverage w,
                             multimap_coverage := 2 * multimap_coverage w\<rparr>))"
    if rd: "read_junctions [lines] m = Inr once" for lines once
  proof -
    let ?rs = "records m lines"
    from rd have ok: "\<not> (\<exists>l \<in> set lines. process_line m [] l = Inl ValueError)"
      and once: "once = foldl upsert [] ?rs"
      by (simp_all add: read_junctions_records split: if_splits)
    let ?twice = "foldl upsert once ?rs"
    from ok have rd2: "read_junctions [lines, lines] m = Inr ?twice"
      by (simp add: read_junctions_records records_append once)
    have "fst ` set ?rs \<subseteq> fst ` set once"
      by (simp add: once foldl_upsert_keys)
    then have keys: "map fst ?twice = map fst once"
      by (rule foldl_upsert_known_keys)
    have vals: "map_of ?twice key =
        Some (w\<lparr>coverage := 2 * coverage w, multimap_coverage := 2 * multimap_coverage w\<rparr>)"
      if w: "map_of once key = Some w" for key w
    proof -
      let ?vs = "map snd (filter (\<lambda>r. fst r = key) ?rs)"
      from w have "pool None ?vs = Some w"
        by (simp add: once map_of_foldl_upsert)
      from pool_twice[OF this] w show ?thesis
        by (simp add: map_of_foldl_upsert)
    qed
    from rd2 keys vals show ?thesis by blast
  qed
  from one two three show ?thesis by simp
qed

theorem no_deduplication_witness:
  "read_junctions [[example_line_a], [example_line_a]] 50 =
     Inr [(''chr1:100-200:+'',
           \<lparr>chr = ''chr1'', start = ''100'', end_field = ''200'', strand = ''+'',
            splice_sites = ''GT/AG'', coverage = 6, multimap_coverage = 2,
            alignment_overhang = 10\<rparr>)]"
proof -
  have f: "py_split (py_strip example_line_a) =
      [''chr1'', ''100'', ''200'', ''+'', ''GT/AG'', ''0'', ''3'', ''1'', ''10'']"
    by code_simp
  have e: "py_int ''200'' = Some 200" by code_simp
  have s: "py_int ''100'' = Some 100" by code_simp
  have a: "py_int ''0'' = Some 0" by code_simp
  have c: "py_int ''3'' = Some 3" by code_simp
  have mm: "py_int ''1'' = Some 1" by code_simp
  have o: "py_int ''10'' = Some 10" by code_simp
  have len: "(50::int) \<le> 200 - 100" and ann: "(0::int) \<noteq> 1" by simp_all
  have key: "junction_key ''chr1'' ''100'' ''200'' ''+'' = ''chr1:100-200:+''"
    by (simp add: junction_key_def)
  note nd = no_deduplication[OF f e s len a ann c mm o]
  from nd[THEN conjunct1] key show ?thesis by simp
qed

subsection \<open>When the key text determines the four fields\<close>

text \<open>
  The key text \<open>chr:start-end:strand\<close> is read back unambiguously when start and end
  are integer literals (they hold no colon, and a minus sign only in front) and the strand
  holds no colon: the strand is what follows the last colon, the chromosome what precedes
  the last colon before it, and start ends at the first minus sign after its first
  character.
\<close>

lemma digit_val_not_punct:
  "digit_val c = Some d \<Longrightarrow> c \<noteq> CHR '':'' \<and> c \<noteq> CHR ''-'' \<and> c \<noteq> CHR ''_''"
  by (auto simp: digit_val_def Let_def split: if_splits)

lemma digits_from_chars:
  "digits_from n cs = Some k \<Longrightarrow> CHR '':'' \<notin> set cs \<and> CHR ''-'' \<notin> set cs"
proof (induction n cs rule: digits_from.induct)
  case (1 acc)
  show ?case by simp
next
  case (2 acc c cs)
  show ?case
  proof (cases "digit_val c")
    case (Some d)
    with 2 digit_val_not_punct[OF Some] show ?thesis by auto
  next
    case None
    with "2.prems" obtain c' cs' d where c: "c = CHR ''_''" and cs: "cs = c' # cs'"
      and d: "digit_val c' = Some d" and rest: "digits_from (10 * acc + d) cs' = Some k"
      by (auto split: if_splits list.splits option.splits)
    from "2.IH" None c cs d rest
    have "CHR '':'' \<notin> set cs' \<and> CHR ''-'' \<notin> set cs'" by blast
    with digit_val_not_punct[OF d] c cs show ?thesis by auto
  qed
qed

lemma py_nat_chars:
  "py_nat cs = Some k \<Longrightarrow> cs \<noteq> [] \<and> CHR '':'' \<notin> set cs \<and> CHR ''-'' \<notin> set cs"
  by (auto simp: py_nat_def split: list.splits option.splits
      dest: digits_from_chars digit_val_not_punct)

lemma py_int_chars:
  assumes "py_int s = Some i"
  shows "\<exists>h t. s = h # t \<and> h \<noteq> CHR '':'' \<and> CHR '':'' \<notin> set t \<and> CHR ''-'' \<notin> set t"
proof -
  from assms obtain h t where s: "s = h # t" by (cases s) (auto simp: py_int_def)
  show ?thesis
  proof (cases "h = CHR ''-'' \<or> h = CHR ''+''")
    case True
    with assms s obtain k where "py_nat t = Some k"
      by (auto simp: py_int_def split: if_splits)
    from py_nat_chars[OF this] True s show ?thesis by auto
  next
    case False
    with assms s obtain k where "py_nat (h # t) = Some k"
      by (auto simp: py_int_def split: if_splits)
    from py_nat_chars[OF this] s show ?thesis by auto
  qed
qed

lemma split_at_first:
  "xs @ a # ys = xs' @ a # ys' \<Longrightarrow> a \<notin> set xs \<Longrightarrow> a \<notin> set xs' \<Longrightarrow> xs = xs' \<and> ys = ys'"
proof (induction xs arbitrary: xs')
  case Nil
  then show ?case by (cases xs') auto
next
  case (Cons x xs)
  then show ?case by (cases xs') auto
qed

lemma split_at_last:
  assumes "xs @ a # ys = xs' @ a # ys'" and "a \<notin> set ys" and "a \<notin> set ys'"
  shows "xs = xs' \<and> ys = ys'"
proof -
  from assms(1) have "rev (xs @ a # ys) = rev (xs' @ a # ys')" by simp
  then have "rev ys @ a # rev xs = rev ys' @ a # rev xs'" by simp
  from split_at_first[OF this] assms(2,3) show ?thesis by simp
qed

lemma junction_key_inject:
  assumes eq: "junction_key c s e st = junction_key c' s' e' st'"
    and s: "py_int s = Some si" and e: "py_int e = Some ei"
    and s': "py_int s' = Some si'" and e': "py_int e' = Some ei'"
    and st: "CHR '':'' \<notin> set st" and st': "CHR '':'' \<notin> set st'"
  shows "c = c' \<and> s = s' \<and> e = e' \<and> st = st'"
proof -
  from py_int_chars[OF s] obtain h t where s1: "s = h # t" "h \<noteq> CHR '':''"
    "CHR '':'' \<notin> set t" "CHR ''-'' \<notin> set t" by blast
  from py_int_chars[OF s'] obtain h' t' where s2: "s' = h' # t'" "h' \<noteq> CHR '':''"
    "CHR '':'' \<notin> set t'" "CHR ''-'' \<notin> set t'" by blast
  from py_int_chars[OF e] have e1: "CHR '':'' \<notin> set e" by auto
  from py_int_chars[OF e'] have e2: "CHR '':'' \<notin> set e'" by auto
  from eq have "(c @ CHR '':'' # s @ CHR ''-'' # e) @ CHR '':'' # st =
      (c' @ CHR '':'' # s' @ CHR ''-'' # e') @ CHR '':'' # st'"
    by (simp add: junction_key_def)
  from split_at_last[OF this st st']
  have a: "c @ CHR '':'' # (s @ CHR ''-'' # e) = c' @ CHR '':'' # (s' @ CHR ''-'' # e')"
    and st_eq: "st = st'" by simp_all
  have "CHR '':'' \<notin> set (s @ CHR ''-'' # e)" "CHR '':'' \<notin> set (s' @ CHR ''-'' # e')"
    using s1 s2 e1 e2 by auto
  from split_at_last[OF a this]
  have c_eq: "c = c'" and b: "s @ CHR ''-'' # e = s' @ CHR ''-'' # e'" by simp_all
  from b s1(1) s2(1) have h_eq: "h = h'" and "t @ CHR ''-'' # e = t' @ CHR ''-'' # e'"
    by simp_all
  from split_at_first[OF this(2) s1(4) s2(4)] have "t = t'" "e = e'" by simp_all
  with c_eq st_eq h_eq s1(1) s2(1) show ?thesis by simp
qed

lemma sum_list_mset_cong:
  "mset xs = mset ys \<Longrightarrow> sum_list (map f xs) = (sum_list (map f ys) :: int)"
  by (metis (no_types) mset_map sum_mset_sum_list)

lemma set_map_mset_cong:
  assumes "mset xs = mset ys"
  shows "set (map f xs) = set (map f ys)"
proof -
  from assms have "set xs = set ys" by (rule mset_eq_setD)
  then show ?thesis by simp
qed

lemma values_for_key_mset:
  assumes "mset rs = mset rs'"
  shows "mset (map snd (filter (\<lambda>r. fst r = k) rs)) =
         mset (map snd (filter (\<lambda>r. fst r = k) rs'))"
  using assms by simp

lemma read_junctions_Inr:
  assumes "read_junctions junctions m = Inr final"
  shows "final = foldl upsert [] (records m (concat junctions))"
    and "distinct (map fst final)"
    and "map_of final key =
           pool None (map snd (filter (\<lambda>r. fst r = key) (records m (concat junctions))))"
proof -
  from assms show f: "final = foldl upsert [] (records m (concat junctions))"
    by (simp add: read_junctions_records split: if_splits)
  show "distinct (map fst final)"
    unfolding f by (rule foldl_upsert_distinct) simp
  show "map_of final key =
           pool None (map snd (filter (\<lambda>r. fst r = key) (records m (concat junctions))))"
    unfolding f by (simp add: map_of_foldl_upsert)
qed

lemma pooled_entry_key:
  assumes "pool None (map snd (filter (\<lambda>r. fst r = key) (records m ls))) = Some v"
  shows "junction_key (chr v) (start v) (end_field v) (strand v) = key"
    and "py_int (start v) \<noteq> None" and "py_int (end_field v) \<noteq> None"
proof -
  let ?vs = "map snd (filter (\<lambda>r. fst r = key) (records m ls))"
  note p = pool_None_Some[OF assms]
  from p(1) obtain v0 vs' where vs: "?vs = v0 # vs'" by (cases ?vs) auto
  from records_first[OF vs] obtain l where "process_line m [] l = Inr [(key, v0)]"
    by blast
  from process_line_record[OF this]
  have "key = junction_key (chr v0) (start v0) (end_field v0) (strand v0)"
    and "py_int (start v0) \<noteq> None" and "py_int (end_field v0) \<noteq> None" by auto
  with p(5-8) vs
  show "junction_key (chr v) (start v) (end_field v) (strand v) = key"
    and "py_int (start v) \<noteq> None" and "py_int (end_field v) \<noteq> None" by simp_all
qed

lemma same_key_same_text:
  assumes "junction_key (chr v) (start v) (end_field v) (strand v) =
           junction_key (chr w) (start w) (end_field w) (strand w)"
    and "py_int (start v) \<noteq> None" and "py_int (end_field v) \<noteq> None"
    and "py_int (start w) \<noteq> None" and "py_int (end_field w) \<noteq> None"
    and "CHR '':'' \<notin> set (strand v)" and "CHR '':'' \<notin> set (strand w)"
  shows "chr v = chr w \<and> start v = start w \<and> end_field v = end_field w \<and> strand v = strand w"
proof -
  from assms(2-5) obtain si ei si' ei' where
    "py_int (start v) = Some si" "py_int (end_field v) = Some ei"
    "py_int (start w) = Some si'" "py_int (end_field w) = Some ei'" by auto
  from junction_key_inject[OF assms(1) this assms(6,7)] show ?thesis .
qed

subsection \<open>The order of the input files\<close>

text \<open>
  Claim C4. Two lists of files that are permutations of one another either both end in
  \<open>ValueError\<close> or both give a final dictionary, and then the two dictionaries have the
  same set of keys (each key once), and under each key the same coverage (the sum over
  the accepted records of the key), the same multimap coverage and the same overhang (the
  maximum over those records). The text stored under a key spells that key in both runs,
  and is the same chrom, start, end and strand in both whenever the stored strands hold
  no colon (a strand is one of \<open>+\<close>, \<open>-\<close>, \<open>.\<close> in the specification's data model). What the
  theorem leaves free is what depends on the order: the \<open>splice_sites\<close> kept from the
  first record seen, and the position of the key in the dictionary, hence of its line in
  the output.
\<close>

theorem order_independence:
  assumes "mset junctions = mset junctions'"
  shows "(read_junctions junctions m = Inl ValueError \<longleftrightarrow>
          read_junctions junctions' m = Inl ValueError) \<and>
         (\<forall>a b. read_junctions junctions m = Inr a \<and> read_junctions junctions' m = Inr b \<longrightarrow>
            set (map fst a) = set (map fst b) \<and>
            distinct (map fst a) \<and> distinct (map fst b) \<and>
            (\<forall>key v w. map_of a key = Some v \<and> map_of b key = Some w \<longrightarrow>
               coverage v = coverage w \<and>
               multimap_coverage v = multimap_coverage w \<and>
               alignment_overhang v = alignment_overhang w \<and>
               junction_key (chr v) (start v) (end_field v) (strand v) = key \<and>
               junction_key (chr w) (start w) (end_field w) (strand w) = key \<and>
               (CHR '':'' \<notin> set (strand v) \<and> CHR '':'' \<notin> set (strand w) \<longrightarrow>
                  chr v = chr w \<and> start v = start w \<and> end_field v = end_field w \<and>
                  strand v = strand w)))"
proof -
  let ?ls = "concat junctions" and ?ls' = "concat junctions'"
  let ?rs = "records m ?ls" and ?rs' = "records m ?ls'"
  from assms have ls: "mset ?ls = mset ?ls'" by (rule concat_mset)
  then have set_ls: "set ?ls = set ?ls'" by (rule mset_eq_setD)
  from ls have rs: "mset ?rs = mset ?rs'" by (rule records_mset)
  then have set_rs: "set ?rs = set ?rs'" by (rule mset_eq_setD)
  have err: "read_junctions junctions m = Inl ValueError \<longleftrightarrow>
          read_junctions junctions' m = Inl ValueError"
    unfolding read_junctions_records set_ls by (simp del: set_concat)
  have content: "set (map fst a) = set (map fst b) \<and>
            distinct (map fst a) \<and> distinct (map fst b) \<and>
            (\<forall>key v w. map_of a key = Some v \<and> map_of b key = Some w \<longrightarrow>
               coverage v = coverage w \<and>
               multimap_coverage v = multimap_coverage w \<and>
               alignment_overhang v = alignment_overhang w \<and>
               junction_key (chr v) (start v) (end_field v) (strand v) = key \<and>
               junction_key (chr w) (start w) (end_field w) (strand w) = key \<and>
               (CHR '':'' \<notin> set (strand v) \<and> CHR '':'' \<notin> set (strand w) \<longrightarrow>
                  chr v = chr w \<and> start v = start w \<and> end_field v = end_field w \<and>
                  strand v = strand w))"
    if a: "read_junctions junctions m = Inr a" and b: "read_junctions junctions' m = Inr b"
    for a b
  proof -
    note ra = read_junctions_Inr[OF a] and rb = read_junctions_Inr[OF b]
    have keys: "set (map fst a) = set (map fst b)"
      by (simp add: ra(1) rb(1) foldl_upsert_keys set_rs)
    have vals: "coverage v = coverage w \<and>
               multimap_coverage v = multimap_coverage w \<and>
               alignment_overhang v = alignment_overhang w \<and>
               junction_key (chr v) (start v) (end_field v) (strand v) = key \<and>
               junction_key (chr w) (start w) (end_field w) (strand w) = key \<and>
               (CHR '':'' \<notin> set (strand v) \<and> CHR '':'' \<notin> set (strand w) \<longrightarrow>
                  chr v = chr w \<and> start v = start w \<and> end_field v = end_field w \<and>
                  strand v = strand w)"
      if v: "map_of a key = Some v" and w: "map_of b key = Some w" for key v w
    proof -
      let ?vs = "map snd (filter (\<lambda>r. fst r = key) ?rs)"
      let ?ws = "map snd (filter (\<lambda>r. fst r = key) ?rs')"
      from v have pv: "pool None ?vs = Some v" by (simp add: ra(3))
      from w have pw: "pool None ?ws = Some w" by (simp add: rb(3))
      have ms: "mset ?vs = mset ?ws" using rs by (rule values_for_key_mset)
      note v' = pool_None_Some[OF pv] and w' = pool_None_Some[OF pw]
      have "coverage v = coverage w"
        unfolding v'(2) w'(2) using ms by (rule sum_list_mset_cong)
      moreover have "multimap_coverage v = multimap_coverage w"
        unfolding v'(3) w'(3) using ms by (rule sum_list_mset_cong)
      moreover have "set (map alignment_overhang ?vs) = set (map alignment_overhang ?ws)"
        using ms by (rule set_map_mset_cong)
      then have "alignment_overhang v = alignment_overhang w"
        unfolding v'(4) w'(4) by (rule arg_cong)
      moreover note kv = pooled_entry_key[OF pv] and kw = pooled_entry_key[OF pw]
      have "CHR '':'' \<notin> set (strand v) \<and> CHR '':'' \<notin> set (strand w) \<longrightarrow>
                  chr v = chr w \<and> start v = start w \<and> end_field v = end_field w \<and>
                  strand v = strand w"
        using same_key_same_text[of v w] kv kw by simp
      ultimately show ?thesis using kv(1) kw(1) by blast
    qed
    from keys ra(2) rb(2) vals show ?thesis by blast
  qed
  from err content show ?thesis by blast
qed

theorem order_independence_witness:
  "\<exists>a b. read_junctions [[example_line_a], [example_line_b]] 50 = Inr a \<and>
         read_junctions [[example_line_b], [example_line_a]] 50 = Inr b \<and>
         set (map fst a) = set (map fst b) \<and>
         (\<forall>key v w. map_of a key = Some v \<and> map_of b key = Some w \<longrightarrow>
            coverage v = coverage w \<and> multimap_coverage v = multimap_coverage w \<and>
            alignment_overhang v = alignment_overhang w)"
proof -
  have ms: "mset [[example_line_a], [example_line_b]] = mset [[example_line_b], [example_line_a]]"
    by simp
  have a: "read_junctions [[example_line_a], [example_line_b]] 50 =
      Inr [(''chr1:100-200:+'',
           \<lparr>chr = ''chr1'', start = ''100'', end_field = ''200'', strand = ''+'',
            splice_sites = ''GT/AG'', coverage = 7, multimap_coverage = 3,
            alignment_overhang = 12\<rparr>)]"
    by code_simp
  have b: "read_junctions [[example_line_b], [example_line_a]] 50 =
      Inr [(''chr1:100-200:+'',
           \<lparr>chr = ''chr1'', start = ''100'', end_field = ''200'', strand = ''+'',
            splice_sites = ''GT/AG'', coverage = 7, multimap_coverage = 3,
            alignment_overhang = 12\<rparr>)]"
    by code_simp
  note oi = order_independence[OF ms, of 50, THEN conjunct2, rule_format, OF conjI, OF a b]
  from a b oi show ?thesis by blast
qed

subsection \<open>Identity of keys\<close>

text \<open>
  Claim C5 says that two records share an entry exactly when their chrom, start and end
  as integers, and strand agree, so that start fields \<open>100\<close> and \<open>0100\<close> share one entry.
  The source keys the dictionary by the text \<open>chr:start-end:strand\<close> of the fields as
  written: the two lines below have the same JunctionKey in the specification's sense and
  are kept as two entries.
\<close>

theorem numeric_key_counterexample:
  "spec_junction_key ''chr1 100 200 + GT/AG 0 3 1 10'' = Some (''chr1'', 100, 200, ''+'') \<and>
   spec_junction_key ''chr1 0100 200 + GT/AG 0 4 2 12'' = Some (''chr1'', 100, 200, ''+'') \<and>
   read_junctions
     [[''chr1 100 200 + GT/AG 0 3 1 10'', ''chr1 0100 200 + GT/AG 0 4 2 12'']] 50 =
     Inr [(''chr1:100-200:+'',
           \<lparr>chr = ''chr1'', start = ''100'', end_field = ''200'', strand = ''+'',
            splice_sites = ''GT/AG'', coverage = 3, multimap_coverage = 1,
            alignment_overhang = 10\<rparr>),
          (''chr1:0100-200:+'',
           \<lparr>chr = ''chr1'', start = ''0100'', end_field = ''200'', strand = ''+'',
            splice_sites = ''GT/AG'', coverage = 4, multimap_coverage = 2,
            alignment_overhang = 12\<rparr>)]"
  by code_simp

text \<open>
  Claim C5, amended: identity is equality of the key text. For two lines that each pass
  the gates (alone, a line \<open>l\<close> creates the one entry \<open>(k, v)\<close>, whose text fields are the
  first five fields of \<open>l\<close> and whose key is their key text), reading one after the other
  gives a single merged entry when the key texts are equal and two entries, in order of
  arrival, when they differ; the key texts are equal exactly when chrom, start, end and
  strand agree as text (for strands without a colon); and the final dictionary of any run
  holds each key once.
\<close>

theorem key_identity_textual:
  assumes "process_line m [] l1 = Inr [(k1, v1)]"
    and "process_line m [] l2 = Inr [(k2, v2)]"
  shows "(\<exists>an cov mm oh. py_split (py_strip l1) =
            [chr v1, start v1, end_field v1, strand v1, splice_sites v1, an, cov, mm, oh]) \<and>
         (\<exists>an cov mm oh. py_split (py_strip l2) =
            [chr v2, start v2, end_field v2, strand v2, splice_sites v2, an, cov, mm, oh]) \<and>
         k1 = junction_key (chr v1) (start v1) (end_field v1) (strand v1) \<and>
         k2 = junction_key (chr v2) (start v2) (end_field v2) (strand v2) \<and>
         (k1 = k2 \<longrightarrow>
            read_junctions [[l1], [l2]] m =
              Inr [(k1, v1\<lparr>coverage := coverage v1 + coverage v2,
                             multimap_coverage := multimap_coverage v1 + multimap_coverage v2,
                             alignment_overhang :=
                               max (alignment_overhang v1) (alignment_overhang v2)\<rparr>)]) \<and>
         (k1 \<noteq> k2 \<longrightarrow> read_junctions [[l1], [l2]] m = Inr [(k1, v1), (k2, v2)]) \<and>
         (CHR '':'' \<notin> set (strand v1) \<and> CHR '':'' \<notin> set (strand v2) \<longrightarrow>
            (k1 = k2 \<longleftrightarrow>
               chr v1 = chr v2 \<and> start v1 = start v2 \<and> end_field v1 = end_field v2 \<and>
               strand v1 = strand v2)) \<and>
         (\<forall>junctions final. read_junctions junctions m = Inr final \<longrightarrow>
            distinct (map fst final))"
proof -
  from process_line_record[OF assms(1)]
  have f1: "\<exists>an cov mm oh. py_split (py_strip l1) =
            [chr v1, start v1, end_field v1, strand v1, splice_sites v1, an, cov, mm, oh]"
    and key1: "k1 = junction_key (chr v1) (start v1) (end_field v1) (strand v1)"
    and int1: "py_int (start v1) \<noteq> None" "py_int (end_field v1) \<noteq> None"
    by auto
  from process_line_record[OF assms(2)]
  have f2: "\<exists>an cov mm oh. py_split (py_strip l2) =
            [chr v2, start v2, end_field v2, strand v2, splice_sites v2, an, cov, mm, oh]"
    and key2: "k2 = junction_key (chr v2) (start v2) (end_field v2) (strand v2)"
    and int2: "py_int (start v2) \<noteq> None" "py_int (end_field v2) \<noteq> None"
    by auto
  have tuple: "CHR '':'' \<notin> set (strand v1) \<and> CHR '':'' \<notin> set (strand v2) \<longrightarrow>
            (k1 = k2 \<longleftrightarrow>
               chr v1 = chr v2 \<and> start v1 = start v2 \<and> end_field v1 = end_field v2 \<and>
               strand v1 = strand v2)"
    using same_key_same_text[of v1 v2] int1 int2 unfolding key1 key2 by auto
  have step2: "process_line m [(k1, v1)] l2 = Inr (upsert [(k1, v1)] (k2, v2))"
    by (simp add: process_line_upsert[of m "[(k1, v1)]"] assms(2))
  have rd: "read_junctions [[l1], [l2]] m = Inr (upsert [(k1, v1)] (k2, v2))"
    by (simp add: read_junctions_def assms(1) step2)
  have same: "k1 = k2 \<longrightarrow>
            read_junctions [[l1], [l2]] m =
              Inr [(k1, v1\<lparr>coverage := coverage v1 + coverage v2,
                             multimap_coverage := multimap_coverage v1 + multimap_coverage v2,
                             alignment_overhang :=
                               max (alignment_overhang v1) (alignment_overhang v2)\<rparr>)]"
    by (simp add: rd upsert_def merge_junction_def)
  have other: "k1 \<noteq> k2 \<longrightarrow> read_junctions [[l1], [l2]] m = Inr [(k1, v1), (k2, v2)]"
    by (auto simp: rd upsert_def)
  have inv: "\<forall>junctions final. read_junctions junctions m = Inr final \<longrightarrow>
            distinct (map fst final)"
    using read_junctions_Inr(2) by blast
  from f1 f2 key1 key2 same other tuple inv show ?thesis by blast
qed

theorem key_identity_textual_witness:
  "read_junctions [[example_line_a], [''chr1 0100 200 + CT/AC 0 4 2 12'']] 50 =
     Inr [(''chr1:100-200:+'',
           \<lparr>chr = ''chr1'', start = ''100'', end_field = ''200'', strand = ''+'',
            splice_sites = ''GT/AG'', coverage = 3, multimap_coverage = 1,
            alignment_overhang = 10\<rparr>),
          (''chr1:0100-200:+'',
           \<lparr>chr = ''chr1'', start = ''0100'', end_field = ''200'', strand = ''+'',
            splice_sites = ''CT/AC'', coverage = 4, multimap_coverage = 2,
            alignment_overhang = 12\<rparr>)] \<and>
   read_junctions [[example_line_a], [example_line_a]] 50 =
     Inr [(''chr1:100-200:+'',
           \<lparr>chr = ''chr1'', start = ''100'', end_field = ''200'', strand = ''+'',
            splice_sites = ''GT/AG'', coverage = 6, multimap_coverage = 2,
            alignment_overhang = 10\<rparr>)]"
proof -
  let ?v1 = "\<lparr>chr = ''chr1'', start = ''100'', end_field = ''200'', strand = ''+'',
            splice_sites = ''GT/AG'', coverage = 3, multimap_coverage = 1,
            alignment_overhang = 10\<rparr>"
  let ?v2 = "\<lparr>chr = ''chr1'', start = ''0100'', end_field = ''200'', strand = ''+'',
            splice_sites = ''CT/AC'', coverage = 4, multimap_coverage = 2,
            alignment_overhang = 12\<rparr>"
  have p1: "process_line 50 [] example_line_a = Inr [(''chr1:100-200:+'', ?v1)]"
    by code_simp
  have p2: "process_line 50 [] ''chr1 0100 200 + CT/AC 0 4 2 12'' =
      Inr [(''chr1:0100-200:+'', ?v2)]"
    by code_simp
  have ne: "''chr1:100-200:+'' \<noteq> ''chr1:0100-200:+''" by simp
  note two = key_identity_textual[OF p1 p2, THEN conjunct2, THEN conjunct2, THEN conjunct2,
      THEN conjunct2, THEN conjunct2, THEN conjunct1, rule_format, OF ne]
  note one = key_identity_textual[OF p1 p1, THEN conjunct2, THEN conjunct2, THEN conjunct2,
      THEN conjunct2, THEN conjunct1, rule_format, OF refl]
  from two one show ?thesis by simp
qed

subsection \<open>The text of the output lines\<close>

text \<open>
  Claim C10. Every entry of the final dictionary, hence every line the writer emits,
  carries in its first five columns the fields chrom, start, end, strand and splice sites
  of the first line among all input lines, in reading order, that passes the gates with
  the entry's key; they are copied as text, so a start field \<open>0100\<close> is written back as
  \<open>0100\<close>. The sixth column is the constant 1 and the last three are the pooled counters.
  (A line \<open>l\<close> passes the gates with key \<open>k\<close> when, alone, it creates an entry under \<open>k\<close>.)
\<close>

theorem output_text_verbatim:
  assumes "read_junctions junctions m = Inr final" and "(key, v) \<in> set final"
  shows "(\<exists>pre line post c s e st ss an cov mm oh.
            concat junctions = pre @ line # post \<and>
            (\<forall>l \<in> set pre. \<forall>v'. process_line m [] l \<noteq> Inr [(key, v')]) \<and>
            (\<exists>v0. process_line m [] line = Inr [(key, v0)]) \<and>
            py_split (py_strip line) = [c, s, e, st, ss, an, cov, mm, oh] \<and>
            format_line v =
              c @ tab @ s @ tab @ e @ tab @ st @ tab @ ss @ tab @ ''1'' @ tab @
              py_str (coverage v) @ tab @ py_str (multimap_coverage v) @ tab @
              py_str (alignment_overhang v)) \<and>
         run [[''chr1 0100 200 + GT/AG 0 7 1 10'']] 50 5 =
           Inr (''chr1'' @ tab @ ''0100'' @ tab @ ''200'' @ tab @ ''+'' @ tab @ ''GT/AG'' @ tab @
                ''1'' @ tab @ ''7'' @ tab @ ''1'' @ tab @ ''10'' @ newline)"
proof -
  let ?vs = "map snd (filter (\<lambda>r. fst r = key) (records m (concat junctions)))"
  note r = read_junctions_Inr[OF assms(1)]
  from r(2) assms(2) have "map_of final key = Some v" by simp
  then have p: "pool None ?vs = Some v" by (simp add: r(3))
  note pv = pool_None_Some[OF p]
  from pv(1) obtain v0 vs' where vs: "?vs = v0 # vs'" by (cases ?vs) auto
  from records_first[OF vs] obtain pre line post where
    cut: "concat junctions = pre @ line # post"
    and before: "\<forall>l \<in> set pre. \<forall>v'. process_line m [] l \<noteq> Inr [(key, v')]"
    and line: "process_line m [] line = Inr [(key, v0)]" by blast
  from process_line_record[OF line] obtain an cov mm oh where
    fields: "py_split (py_strip line) =
       [chr v0, start v0, end_field v0, strand v0, splice_sites v0, an, cov, mm, oh]"
    by blast
  have same: "chr v = chr v0" "start v = start v0" "end_field v = end_field v0"
    "strand v = strand v0" "splice_sites v = splice_sites v0"
    using pv(5-9) by (simp_all add: vs)
  have fmt: "format_line v =
       chr v0 @ tab @ start v0 @ tab @ end_field v0 @ tab @ strand v0 @ tab @
       splice_sites v0 @ tab @ ''1'' @ tab @
       py_str (coverage v) @ tab @ py_str (multimap_coverage v) @ tab @
       py_str (alignment_overhang v)"
    by (simp add: format_line_def same)
  have ex: "run [[''chr1 0100 200 + GT/AG 0 7 1 10'']] 50 5 =
           Inr (''chr1'' @ tab @ ''0100'' @ tab @ ''200'' @ tab @ ''+'' @ tab @ ''GT/AG'' @ tab @
                ''1'' @ tab @ ''7'' @ tab @ ''1'' @ tab @ ''10'' @ newline)"
    by code_simp
  from cut before line fields fmt have "\<exists>pre line post c s e st ss an cov mm oh.
            concat junctions = pre @ line # post \<and>
            (\<forall>l \<in> set pre. \<forall>v'. process_line m [] l \<noteq> Inr [(key, v')]) \<and>
            (\<exists>v0. process_line m [] line = Inr [(key, v0)]) \<and>
            py_split (py_strip line) = [c, s, e, st, ss, an, cov, mm, oh] \<and>
            format_line v =
              c @ tab @ s @ tab @ e @ tab @ st @ tab @ ss @ tab @ ''1'' @ tab @
              py_str (coverage v) @ tab @ py_str (multimap_coverage v) @ tab @
              py_str (alignment_overhang v)"
    by blast
  with ex show ?thesis by (rule conjI[rotated])
qed

theorem output_text_verbatim_witness:
  "\<exists>pre line post c s e st ss an cov mm oh.
     concat [[''chr1 0100 200 + GT/AG 0 3 1 10''], [''chr1 0100 200 + CT/AC 0 4 2 12'']] =
       pre @ line # post \<and>
     (\<forall>l \<in> set pre. \<forall>v'. process_line 50 [] l \<noteq> Inr [(''chr1:0100-200:+'', v')]) \<and>
     (\<exists>v0. process_line 50 [] line = Inr [(''chr1:0100-200:+'', v0)]) \<and>
     py_split (py_strip line) = [c, s, e, st, ss, an, cov, mm, oh] \<and>
     ''chr1'' @ tab @ ''0100'' @ tab @ ''200'' @ tab @ ''+'' @ tab @ ''GT/AG'' @ tab @
     ''1'' @ tab @ ''7'' @ tab @ ''3'' @ tab @ ''12'' =
       c @ tab @ s @ tab @ e @ tab @ st @ tab @ ss @ tab @ ''1'' @ tab @
       py_str 7 @ tab @ py_str 3 @ tab @ py_str 12"
proof -
  let ?v = "\<lparr>chr = ''chr1'', start = ''0100'', end_field = ''200'', strand = ''+'',
            splice_sites = ''GT/AG'', coverage = 7, multimap_coverage = 3,
            alignment_overhang = 12\<rparr>"
  have rd: "read_junctions
      [[''chr1 0100 200 + GT/AG 0 3 1 10''], [''chr1 0100 200 + CT/AC 0 4 2 12'']] 50 =
      Inr [(''chr1:0100-200:+'', ?v)]"
    by code_simp
  have mem: "(''chr1:0100-200:+'', ?v) \<in> set [(''chr1:0100-200:+'', ?v)]"
    by simp
  have fmt: "format_line ?v =
     ''chr1'' @ tab @ ''0100'' @ tab @ ''200'' @ tab @ ''+'' @ tab @ ''GT/AG'' @ tab @
     ''1'' @ tab @ ''7'' @ tab @ ''3'' @ tab @ ''12''"
    by code_simp
  note otv = output_text_verbatim[OF rd mem, THEN conjunct1]
  then show ?thesis unfolding fmt by simp
qed

end
